theory Spec2Isabelle
  imports Complex_Main "HOL-Library.AList"
begin

section \<open>Python values used by pagerank.py\<close>

text \<open>
  Floats are modelled by exact reals, Python's unbounded integers by \<open>int\<close>.
  The first four errors are the exceptions the source can raise (through division,
  indexing, dictionary lookup and the \<open>random\<close> module).  The last two are error
  kinds of the specification; no branch of the source raises them.
\<close>

datatype error =
    ZeroDivisionError | IndexError | KeyError | ValueError
  | EmptyCorpusError | UnknownPageError

text \<open>
  A dictionary keeps its keys in insertion order: an association list in which an
  assignment to a present key replaces the value in place and an assignment to a new
  key appends the entry (\<open>AList.update\<close>).  A set is the list of its elements in the
  order in which the program iterates over it.
\<close>

type_synonym ('k, 'v) dict = "('k \<times> 'v) list"
type_synonym 'p pyset = "'p list"
type_synonym 'p corpus = "('p, 'p pyset) dict"

definition dict_keys :: "('k, 'v) dict \<Rightarrow> 'k list" where
  "dict_keys d = map fst d"

definition dict_contains :: "('k, 'v) dict \<Rightarrow> 'k \<Rightarrow> bool" where
  "dict_contains d k = (map_of d k \<noteq> None)"

definition dict_get :: "('k, 'v) dict \<Rightarrow> 'k \<Rightarrow> error + 'v" where
  "dict_get d k = (case map_of d k of None \<Rightarrow> Inl KeyError | Some v \<Rightarrow> Inr v)"

definition dict_set :: "('k, 'v) dict \<Rightarrow> 'k \<Rightarrow> 'v \<Rightarrow> ('k, 'v) dict" where
  "dict_set d k v = AList.update k v d"

definition set_add :: "'p pyset \<Rightarrow> 'p \<Rightarrow> 'p pyset" where
  "set_add s x = (if x \<in> set s then s else s @ [x])"

section \<open>The random module\<close>

text \<open>
  The generator is the sequence of the values that \<open>random()\<close> will return, each
  in the interval from 0 (included) to 1 (excluded); a call takes the first and leaves
  the rest.
\<close>

type_synonym rng = "nat \<Rightarrow> real"

definition valid_rng :: "rng \<Rightarrow> bool" where
  "valid_rng g = (\<forall>i. 0 \<le> g i \<and> g i < 1)"

definition rng_next :: "rng \<Rightarrow> real \<times> rng" where
  "rng_next g = (g 0, \<lambda>i. g (Suc i))"

text \<open>
  \<open>random.choice(seq)\<close>: IndexError on an empty sequence, otherwise the element at an
  index below \<open>len(seq)\<close>, here the draw scaled by the length and rounded down.
\<close>

definition random_choice :: "'a list \<Rightarrow> rng \<Rightarrow> error + ('a \<times> rng)" where
  "random_choice seq g =
     (if seq = [] then Inl IndexError
      else (case rng_next g of (r, g') \<Rightarrow>
              Inr (seq ! nat \<lfloor>r * real (length seq)\<rfloor>, g')))"

text \<open>
  \<open>bisect.bisect_right(a, x, lo, hi)\<close>, the binary search that \<open>random.choices\<close>
  runs on the cumulative weights.
\<close>

function bisect_right :: "real list \<Rightarrow> real \<Rightarrow> nat \<Rightarrow> nat \<Rightarrow> nat" where
  "bisect_right a x lo hi =
     (if lo < hi
      then (let mid = (lo + hi) div 2
            in if x < a ! mid then bisect_right a x lo mid
               else bisect_right a x (mid + 1) hi)
      else lo)"
  by pat_completeness auto
termination
  by (relation "measure (\<lambda>(a, x, lo, hi). hi - lo)") auto

declare bisect_right.simps [simp del]

fun accumulate :: "real \<Rightarrow> real list \<Rightarrow> real list" where
  "accumulate s [] = []"
| "accumulate s (w # ws) = (s + w) # accumulate (s + w) ws"

text \<open>
  \<open>random.choices(population, weights)\<close> with the default \<open>k = 1\<close>, reduced to the
  one element of the list it returns (the source takes it with \<open>[0]\<close> or \<open>.pop()\<close>).
\<close>

definition random_choices :: "'a list \<Rightarrow> real list \<Rightarrow> rng \<Rightarrow> error + ('a \<times> rng)" where
  "random_choices population weights g =
     (let n = length population;
          cum_weights = accumulate 0 weights
      in if length cum_weights \<noteq> n then Inl ValueError
         else if cum_weights = [] then Inl IndexError
         else (let total = last cum_weights
               in if total \<le> 0 then Inl ValueError
                  else (case rng_next g of (r, g') \<Rightarrow>
                          Inr (population ! bisect_right cum_weights (r * total) 0 (n - 1), g'))))"

section \<open>transition_model\<close>

text \<open>
  \<open>allPages\<close> is created empty, \<open>linkedPages\<close> is bound either to the outlinks of
  \<open>page\<close> or to the very same set object, and only then \<open>allPages\<close> is filled: where
  the page is unknown or has no outlinks, \<open>linkedPages\<close> is the filled \<open>allPages\<close>.
\<close>

definition getAllPages :: "'p corpus \<Rightarrow> 'p pyset" where
  "getAllPages corpus = foldl set_add [] (dict_keys corpus)"

definition transition_model ::
  "'p corpus \<Rightarrow> 'p \<Rightarrow> real \<Rightarrow> rng \<Rightarrow> error + (('p, real) dict \<times> rng)" where
  "transition_model corpus page damping_factor g =
     (let allPages = foldl set_add [] (dict_keys corpus);
          linkedPages = (case map_of corpus page of
                           Some ls \<Rightarrow> if length ls > 0 then ls else allPages
                         | None \<Rightarrow> allPages);
          linkedPageProbability = damping_factor;
          allPagesProbability = 1 - damping_factor
      in case random_choices [linkedPages, allPages]
                [linkedPageProbability, allPagesProbability] g of
           Inl e \<Rightarrow> Inl e
         | Inr (selection, g') \<Rightarrow>
             if length selection = 0 then Inl ZeroDivisionError
             else (let probabilityPerPage = linkedPageProbability / real (length selection);
                       teleportationProbability =
                         allPagesProbability / real (length selection + 1);
                       probabilityDict = dict_set [] page teleportationProbability
                   in Inr (foldl (\<lambda>d selectedPage.
                                    dict_set d selectedPage
                                      (probabilityPerPage + teleportationProbability))
                             probabilityDict selection, g')))"

section \<open>sample_pagerank\<close>

function sample_loop ::
  "'p corpus \<Rightarrow> real \<Rightarrow> int \<Rightarrow> 'p \<Rightarrow> ('p, int) dict \<Rightarrow> rng
     \<Rightarrow> error + (('p, int) dict \<times> rng)" where
  "sample_loop corpus damping_factor n page pageRank g =
     (if n > 0
      then (case transition_model corpus page damping_factor g of
              Inl e \<Rightarrow> Inl e
            | Inr (transitionChain, g1) \<Rightarrow>
                (case random_choices (map fst transitionChain) (map snd transitionChain) g1 of
                   Inl e \<Rightarrow> Inl e
                 | Inr (sample, g2) \<Rightarrow>
                     (let pageRank1 = (if \<not> dict_contains pageRank sample
                                       then dict_set pageRank sample 0 else pageRank)
                      in case dict_get pageRank1 sample of
                           Inl e \<Rightarrow> Inl e
                         | Inr c \<Rightarrow>
                             sample_loop corpus damping_factor (n - 1) sample
                               (dict_set pageRank1 sample (c + 1)) g2)))
      else Inr (pageRank, g))"
  by pat_completeness auto
termination
  by (relation "measure (\<lambda>(corpus, damping_factor, n, page, pageRank, g). nat n)") auto

declare sample_loop.simps [simp del]

text \<open>
  The last loop of \<open>sample_pagerank\<close> replaces every count by the count divided by
  \<open>sampleLen\<close>; the division is reached only when the dictionary has an entry.
\<close>

definition sample_pagerank ::
  "'p corpus \<Rightarrow> real \<Rightarrow> int \<Rightarrow> rng \<Rightarrow> error + ('p, real) dict" where
  "sample_pagerank corpus damping_factor n g =
     (let sampleLen = n;
          pages = dict_keys corpus
      in case random_choice pages g of
           Inl e \<Rightarrow> Inl e
         | Inr (page, g1) \<Rightarrow>
             (case sample_loop corpus damping_factor n page [] g1 of
                Inl e \<Rightarrow> Inl e
              | Inr (pageRank, g2) \<Rightarrow>
                  if pageRank = [] then Inr []
                  else if sampleLen = 0 then Inl ZeroDivisionError
                  else Inr (map (\<lambda>(page, rank). (page, real_of_int rank / real_of_int sampleLen))
                              pageRank)))"

section \<open>iterate_pagerank\<close>

text \<open>
  \<open>calculate_pagerank\<close> writes into the caller's corpus, so the model returns the
  corpus with the rank.  The loop runs over the keys; assigning to a present key
  does not change them.
\<close>

fun calc_loop ::
  "'p \<Rightarrow> ('p, real) dict \<Rightarrow> 'p list \<Rightarrow> 'p corpus \<Rightarrow> real \<Rightarrow> error + (real \<times> 'p corpus)" where
  "calc_loop page pageRanks [] corpus sigmaValue = Inr (sigmaValue, corpus)"
| "calc_loop page pageRanks (link # links) corpus sigmaValue =
     (case dict_get corpus link of
        Inl e \<Rightarrow> Inl e
      | Inr ls \<Rightarrow>
          (let corpus1 = (if length ls = 0 then dict_set corpus link (getAllPages corpus)
                          else corpus)
           in case dict_get corpus1 link of
                Inl e \<Rightarrow> Inl e
              | Inr ls1 \<Rightarrow>
                  if page \<notin> set ls1 then calc_loop page pageRanks links corpus1 sigmaValue
                  else (case dict_get pageRanks link of
                          Inl e \<Rightarrow> Inl e
                        | Inr r \<Rightarrow>
                            if length ls1 = 0 then Inl ZeroDivisionError
                            else calc_loop page pageRanks links corpus1
                                   (sigmaValue + r / real (length ls1)))))"

definition calculate_pagerank ::
  "'p \<Rightarrow> int \<Rightarrow> 'p corpus \<Rightarrow> ('p, real) dict \<Rightarrow> real \<Rightarrow> error + (real \<times> 'p corpus)" where
  "calculate_pagerank page numPage corpus pageRanks damping_factor =
     (if numPage = 0 then Inl ZeroDivisionError
      else (let rank = (1 - damping_factor) / real_of_int numPage
            in case calc_loop page pageRanks (dict_keys corpus) corpus 0 of
                 Inl e \<Rightarrow> Inl e
               | Inr (sigmaValue, corpus') \<Rightarrow>
                   Inr (rank + damping_factor * sigmaValue, corpus')))"

fun hasConverged_loop ::
  "'p list \<Rightarrow> ('p, real) dict \<Rightarrow> ('p, real) dict \<Rightarrow> error + bool" where
  "hasConverged_loop [] newRanks oldRanks = Inr True"
| "hasConverged_loop (page # pages) newRanks oldRanks =
     (case dict_get newRanks page of
        Inl e \<Rightarrow> Inl e
      | Inr a \<Rightarrow>
          (case dict_get oldRanks page of
             Inl e \<Rightarrow> Inl e
           | Inr b \<Rightarrow>
               if \<bar>a - b\<bar> > 1 / 1000 then Inr False
               else hasConverged_loop pages newRanks oldRanks))"

definition hasConverged :: "('p, real) dict \<Rightarrow> ('p, real) dict \<Rightarrow> error + bool" where
  "hasConverged newRanks oldRanks = hasConverged_loop (dict_keys newRanks) newRanks oldRanks"

text \<open>One pass of the \<open>for page in pageRanks\<close> loop inside \<open>while True\<close>.\<close>

fun sweep ::
  "real \<Rightarrow> int \<Rightarrow> 'p list \<Rightarrow> 'p corpus \<Rightarrow> ('p, real) dict \<Rightarrow> ('p, real) dict
     \<Rightarrow> error + (('p, real) dict \<times> 'p corpus)" where
  "sweep damping_factor numPage [] corpus pageRanks newRanks = Inr (newRanks, corpus)"
| "sweep damping_factor numPage (page # pages) corpus pageRanks newRanks =
     (case calculate_pagerank page numPage corpus pageRanks damping_factor of
        Inl e \<Rightarrow> Inl e
      | Inr (r, corpus') \<Rightarrow>
          sweep damping_factor numPage pages corpus' pageRanks (dict_set newRanks page r))"

text \<open>
  The \<open>while True\<close> loop has no bound, so the model is a partial function: \<open>None\<close> is
  a run that never leaves the loop.  On convergence the source leaves the loop before
  the assignment \<open>pageRanks = newRanks.copy()\<close> and returns \<open>pageRanks\<close>.
\<close>

partial_function (option) iterate_loop ::
  "real \<Rightarrow> int \<Rightarrow> 'p corpus \<Rightarrow> ('p, real) dict \<Rightarrow> ('p, real) dict
     \<Rightarrow> (error + (('p, real) dict \<times> 'p corpus)) option" where
  "iterate_loop damping_factor numPage corpus pageRanks newRanks =
     (case sweep damping_factor numPage (dict_keys pageRanks) corpus pageRanks newRanks of
        Inl e \<Rightarrow> Some (Inl e)
      | Inr (newRanks', corpus') \<Rightarrow>
          (case hasConverged newRanks' pageRanks of
             Inl e \<Rightarrow> Some (Inl e)
           | Inr converged \<Rightarrow>
               if converged then Some (Inr (pageRanks, corpus'))
               else iterate_loop damping_factor numPage corpus' newRanks' newRanks'))"

definition init_ranks :: "'p corpus \<Rightarrow> real \<Rightarrow> ('p, real) dict" where
  "init_ranks corpus startingRank =
     foldl (\<lambda>pageRanks page. dict_set pageRanks page startingRank) [] (dict_keys corpus)"

definition iterate_pagerank ::
  "'p corpus \<Rightarrow> real \<Rightarrow> (error + (('p, real) dict \<times> 'p corpus)) option" where
  "iterate_pagerank corpus damping_factor =
     (let numPage = int (length corpus)
      in if numPage = 0 then Some (Inl ZeroDivisionError)
         else (let startingRank = 1 / real_of_int numPage
               in iterate_loop damping_factor numPage corpus
                    (init_ranks corpus startingRank) []))"

section \<open>The recurrence and the normalization as the specification words them\<close>

text \<open>
  These definitions follow the specification, not the source; the theorems below
  compare the source's functions with them.  \<open>spec_outlinks\<close> is the outlink set of a
  page after dangling normalization, \<open>spec_normalize\<close> the graph in which every empty
  outlink set is replaced by the set of all pages, \<open>spec_new_rank\<close> the right-hand
  side of the PageRank recurrence.
\<close>

definition rank_of :: "('p, real) dict \<Rightarrow> 'p \<Rightarrow> real" where
  "rank_of ranks q = (case map_of ranks q of Some r \<Rightarrow> r | None \<Rightarrow> 0)"

definition spec_outlinks :: "'p corpus \<Rightarrow> 'p \<Rightarrow> 'p set" where
  "spec_outlinks corpus q =
     (case map_of corpus q of
        None \<Rightarrow> {}
      | Some ls \<Rightarrow> if ls = [] then set (dict_keys corpus) else set ls)"

definition spec_normalize :: "'p corpus \<Rightarrow> 'p corpus" where
  "spec_normalize corpus =
     map (\<lambda>(q, ls). (q, if ls = [] then getAllPages corpus else ls)) corpus"

definition spec_new_rank :: "real \<Rightarrow> 'p corpus \<Rightarrow> ('p \<Rightarrow> real) \<Rightarrow> 'p \<Rightarrow> real" where
  "spec_new_rank damping_factor corpus rank p =
     (1 - damping_factor) / real (length corpus)
     + damping_factor *
         sum_list (map (\<lambda>q. rank q / real (card (spec_outlinks corpus q)))
                     (filter (\<lambda>q. p \<in> spec_outlinks corpus q) (dict_keys corpus)))"

text \<open>
  The value that the loop of \<open>calculate_pagerank\<close> adds up in \<open>sigmaValue\<close>, in closed
  form over the entries of the corpus; \<open>allp\<close> is what \<open>getAllPages\<close> returns.
\<close>

definition sigma_closed :: "'p pyset \<Rightarrow> ('p, real) dict \<Rightarrow> 'p \<Rightarrow> 'p corpus \<Rightarrow> real" where
  "sigma_closed allp pageRanks page entries =
     sum_list (map (\<lambda>(q, ls). if page \<in> set (if ls = [] then allp else ls)
                               then rank_of pageRanks q / real (length (if ls = [] then allp else ls))
                               else 0) entries)"

text \<open>
  Quantities for the termination of the loop: \<open>link_weight\<close> is the share of the rank
  of a page with outlinks \<open>ls\<close> that \<open>calculate_pagerank\<close> passes to \<open>page\<close>,
  \<open>sweep_rank\<close> the rank that a sweep assigns to a page, and \<open>sweep_change\<close> the sum
  over all pages of the absolute change of rank in one sweep.
\<close>

definition link_weight :: "'p pyset \<Rightarrow> 'p \<Rightarrow> 'p pyset \<Rightarrow> real" where
  "link_weight allp page ls =
     (if page \<in> set (if ls = [] then allp else ls)
      then 1 / real (length (if ls = [] then allp else ls)) else 0)"

definition sweep_rank :: "real \<Rightarrow> int \<Rightarrow> 'p corpus \<Rightarrow> ('p, real) dict \<Rightarrow> 'p \<Rightarrow> real" where
  "sweep_rank d numPage corpus pageRanks p =
     (1 - d) / real_of_int numPage
     + d * sigma_closed (getAllPages corpus) pageRanks p corpus"

definition sweep_change :: "real \<Rightarrow> int \<Rightarrow> 'p corpus \<Rightarrow> ('p, real) dict \<Rightarrow> real" where
  "sweep_change d numPage corpus pageRanks =
     sum_list (map (\<lambda>p. \<bar>sweep_rank d numPage corpus pageRanks p - rank_of pageRanks p\<bar>)
                 (dict_keys corpus))"

section \<open>Sets and dictionaries\<close>

lemma foldl_set_add_distinct:
  "distinct (acc @ ks) \<Longrightarrow> foldl set_add acc ks = acc @ ks"
  by (induction ks arbitrary: acc) (auto simp: set_add_def)

lemma set_foldl_set_add: "set (foldl set_add acc ks) = set acc \<union> set ks"
  by (induction ks arbitrary: acc) (auto simp: set_add_def)


lemma getAllPages_set: "set (getAllPages corpus) = set (dict_keys corpus)"
  by (simp add: getAllPages_def set_foldl_set_add)


lemma getAllPages_keys:
  "distinct (dict_keys corpus) \<Longrightarrow> getAllPages corpus = dict_keys corpus"
  using foldl_set_add_distinct [of "[]" "dict_keys corpus"] by (simp add: getAllPages_def)

lemma getAllPages_nonempty: "corpus \<noteq> [] \<Longrightarrow> getAllPages corpus \<noteq> []"
  using getAllPages_set [of corpus] by (cases corpus) (auto simp: dict_keys_def)

lemma dict_set_Nil: "dict_set [] k v = [(k, v)]"
  by (simp add: dict_set_def)

lemma dict_set_new: "k \<notin> fst ` set d \<Longrightarrow> dict_set d k v = d @ [(k, v)]"
  by (induction d) (auto simp: dict_set_def)

lemma foldl_dict_set_new:
  "distinct ks \<Longrightarrow> set ks \<inter> fst ` set d = {} \<Longrightarrow>
   foldl (\<lambda>d q. dict_set d q v) d ks = d @ map (\<lambda>q. (q, v)) ks"
proof (induction ks arbitrary: d)
  case Nil
  then show ?case by simp
next
  case (Cons k ks)
  have "dict_set d k v = d @ [(k, v)]" using Cons.prems by (intro dict_set_new) auto
  moreover have "set ks \<inter> fst ` set (d @ [(k, v)]) = {}" using Cons.prems by auto
  ultimately show ?case using Cons.IH [of "d @ [(k, v)]"] Cons.prems by simp
qed

section \<open>What a draw returns\<close>

text \<open>
  With draws in the interval from 0 to 1, \<open>random.choice\<close> returns an element of a
  non-empty sequence; whatever the draw, \<open>random.choices\<close> returns an element of the
  population when it returns.
\<close>

lemma random_choice_member:
  assumes "valid_rng g" and "seq \<noteq> []"
  shows "\<exists>x g'. random_choice seq g = Inr (x, g') \<and> x \<in> set seq"
proof -
  have r: "0 \<le> g 0" "g 0 < 1" using assms(1) by (auto simp: valid_rng_def)
  have "g 0 * real (length seq) < real (length seq)" using r(2) assms(2) by simp
  then have "\<lfloor>g 0 * real (length seq)\<rfloor> < int (length seq)" by (simp add: floor_less_iff)
  moreover have "0 \<le> \<lfloor>g 0 * real (length seq)\<rfloor>" using r(1) by simp
  ultimately have "nat \<lfloor>g 0 * real (length seq)\<rfloor> < length seq" by linarith
  then show ?thesis using assms(2) by (simp add: random_choice_def rng_next_def)
qed

lemma bisect_right_bounds:
  "lo \<le> hi \<Longrightarrow> lo \<le> bisect_right a x lo hi \<and> bisect_right a x lo hi \<le> hi"
proof (induction a x lo hi rule: bisect_right.induct)
  case (1 a x lo hi)
  show ?case
  proof (cases "lo < hi")
    case False
    then show ?thesis using "1.prems" by (simp add: bisect_right.simps)
  next
    case True
    define mid where "mid = (lo + hi) div 2"
    have m: "lo \<le> mid" "mid < hi" using True by (auto simp: mid_def)
    show ?thesis
    proof (cases "x < a ! mid")
      case T: True
      then show ?thesis
        using "1.IH"(1) [OF True mid_def T] m True
        by (subst (1 2) bisect_right.simps) (simp add: mid_def [symmetric] Let_def)
    next
      case F: False
      then show ?thesis
        using "1.IH"(2) [OF True mid_def F] m True
        by (subst (1 2) bisect_right.simps) (simp add: mid_def [symmetric] Let_def)
    qed
  qed
qed

lemma random_choices_member:
  assumes "random_choices population weights g = Inr (x, g')"
  shows "x \<in> set population"
proof -
  have n: "population \<noteq> []" using assms
    by (auto simp: random_choices_def Let_def split: if_splits)
  have "bisect_right a y 0 (length population - 1) < length population" for a y
    using bisect_right_bounds [of 0 "length population - 1" a y] n
    by (cases population) auto
  then show ?thesis using assms
    by (auto simp: random_choices_def Let_def rng_next_def split: if_splits)
qed

section \<open>Evaluation lemmas\<close>

lemma random_choices_two:
  "random_choices [x, y] [a, b] g =
     (if a + b \<le> 0 then Inl ValueError
      else Inr (if g 0 * (a + b) < a then x else y, \<lambda>i. g (Suc i)))"
  by (simp add: random_choices_def rng_next_def bisect_right.simps Let_def)

section \<open>The empty corpus\<close>

text \<open>
  C7 as stated (each estimator raises EmptyCorpusError on the graph with zero pages)
  fails: on the empty graph neither estimator ends in EmptyCorpusError.
\<close>

theorem empty_corpus_error_counterexample:
  "sample_pagerank ([] :: string corpus) (85 / 100) 10000 (\<lambda>_. 0) \<noteq> Inl EmptyCorpusError
   \<and> iterate_pagerank ([] :: string corpus) (85 / 100) \<noteq> Some (Inl EmptyCorpusError)"
  by (simp add: sample_pagerank_def random_choice_def dict_keys_def iterate_pagerank_def)

text \<open>
  C7, amended: on the graph with zero pages the sampling estimator fails with the
  IndexError of \<open>random.choice\<close> on an empty sequence and the iterative estimator fails
  with the ZeroDivisionError of \<open>1 / numPage\<close>; neither returns a mapping.
\<close>

theorem empty_corpus_fails:
  "sample_pagerank ([] :: 'p corpus) damping_factor n g = Inl IndexError
   \<and> iterate_pagerank ([] :: 'p corpus) damping_factor = Some (Inl ZeroDivisionError)"
  by (simp add: sample_pagerank_def random_choice_def dict_keys_def iterate_pagerank_def)

section \<open>The two-page cycle\<close>

text \<open>
  C9: on the graph over two pages A and B in which A links to B and B links to A, the
  iterative estimator leaves its loop and returns rank 1/2 for A and for B, for every
  damping factor (those in the interval from 0 to 1 included).
\<close>

theorem two_page_cycle_converges:
  "A \<noteq> B \<Longrightarrow>
   iterate_pagerank [(A, [B]), (B, [A])] damping_factor =
     Some (Inr ([(A, 1 / 2), (B, 1 / 2)], [(A, [B]), (B, [A])]))"
  apply (simp add: iterate_pagerank_def init_ranks_def dict_keys_def dict_set_def)
  apply (subst iterate_loop.simps)
  apply (simp add: calculate_pagerank_def dict_keys_def dict_set_def dict_get_def
      hasConverged_def Let_def)
  apply (simp add: field_simps)
  done

theorem two_page_cycle_converges_witness:
  "''A'' \<noteq> ''B'' \<and>
   iterate_pagerank [(''A'', [''B'']), (''B'', [''A''])] (85 / 100) =
     Some (Inr ([(''A'', 1 / 2), (''B'', 1 / 2)], [(''A'', [''B'']), (''B'', [''A''])]))"
  using two_page_cycle_converges [of "''A''" "''B''" "85 / 100"] by simp

section \<open>The transition model at concrete inputs\<close>

text \<open>
  C1 at the corpus A -> B, B -> A, C -> A, page A, damping factor 0.85: whichever of
  the two sets the draw selects, the returned mapping is not the one of the formula.
  When the outlinks of A are selected, C is no key of the result; when all pages are
  selected, every page gets 0.85/3 + 0.15/4, also A, which the formula gives 0.15/3.
\<close>

theorem transition_model_three_pages:
  "map_sum id fst (transition_model [(''A'', [''B'']), (''B'', [''A'']), (''C'', [''A''])]
       ''A'' (85 / 100) (\<lambda>_. 0))
     = Inr [(''A'', 3 / 40), (''B'', 37 / 40)]
   \<and> map_sum id fst (transition_model [(''A'', [''B'']), (''B'', [''A'']), (''C'', [''A''])]
       ''A'' (85 / 100) (\<lambda>_. 9 / 10))
     = Inr [(''A'', 77 / 240), (''B'', 77 / 240), (''C'', 77 / 240)]"
  by (simp add: transition_model_def random_choices_two dict_keys_def set_add_def
      dict_set_def Let_def)

text \<open>
  C4 at the corpus of the single page A without outlinks, page A, damping factor 0.5:
  for every draw the returned values sum to 3/4, not to 1.
\<close>

theorem transition_model_single_page_sum:
  "map_sum id (\<lambda>r. sum_list (map snd (fst r)))
     (transition_model [(''A'', [])] ''A'' (1 / 2) g) = Inr (3 / 4)"
  by (simp add: transition_model_def random_choices_two dict_keys_def set_add_def
      dict_set_def Let_def)

text \<open>
  C5 at the corpus A -> nothing, B -> A, page A (dangling), damping factor 0.5: for
  every draw each of the two pages gets 0.5/2 + 0.5/3 = 5/12, not 1/2.
\<close>

theorem transition_model_dangling_two_pages:
  "map_sum id fst (transition_model [(''A'', []), (''B'', [''A''])] ''A'' (1 / 2) g)
     = Inr [(''A'', 5 / 12), (''B'', 5 / 12)]"
  by (simp add: transition_model_def random_choices_two dict_keys_def set_add_def
      dict_set_def Let_def)

section \<open>A page that is no key of the graph\<close>




section \<open>Leaving the loop\<close>

lemma map_of_dict_set: "map_of (dict_set d k v) = (map_of d)(k \<mapsto> v)"
  by (simp add: dict_set_def update_conv')

lemma dict_keys_dict_set_set: "set (dict_keys (dict_set d k v)) = insert k (set (dict_keys d))"
  by (simp add: dict_set_def dict_keys_def dom_update del: map_map)

lemma sweep_keys:
  "sweep d N ps corpus pr nr = Inr (nr', c') \<Longrightarrow>
   set (dict_keys nr') = set (dict_keys nr) \<union> set ps"
  by (induction ps arbitrary: corpus nr)
     (auto split: sum.splits simp: dict_keys_dict_set_set)

lemma dict_get_rank_of:
  "k \<in> set (dict_keys d) \<Longrightarrow> dict_get d k = Inr (rank_of d k)"
  by (auto simp: dict_get_def rank_of_def dict_keys_def map_of_eq_None_iff split: option.splits)

lemma hasConverged_loop_eq:
  "set ps \<subseteq> set (dict_keys nr) \<Longrightarrow> set ps \<subseteq> set (dict_keys pr) \<Longrightarrow>
   hasConverged_loop ps nr pr =
     Inr (list_all (\<lambda>p. \<bar>rank_of nr p - rank_of pr p\<bar> \<le> 1 / 1000) ps)"
  by (induction ps) (auto simp: dict_get_rank_of)

lemma sweep_three_pages:
  "sweep (1 / 1000) 3 [''A'', ''B'', ''C'']
         [(''A'', [''B'']), (''B'', [''A'']), (''C'', [''A''])]
         [(''A'', 1 / 3), (''B'', 1 / 3), (''C'', 1 / 3)] []
       = Inr ([(''A'', 1001 / 3000), (''B'', 1 / 3), (''C'', 333 / 1000)],
              [(''A'', [''B'']), (''B'', [''A'']), (''C'', [''A''])])"
  by (simp add: calculate_pagerank_def dict_keys_def dict_set_def dict_get_def Let_def)

text \<open>
  C2 as stated (on convergence the estimator returns the ranks just computed, not the
  previous ones) fails: on the graph A -> B, B -> A, C -> A with damping factor 0.001
  the first sweep gives new ranks within 0.001 of the initial ranks 1/3, the
  convergence test succeeds, and the estimator returns the initial ranks, which
  differ from the new ones.
\<close>

theorem converged_returns_new_ranks_counterexample:
  "sweep (1 / 1000) 3 [''A'', ''B'', ''C'']
         [(''A'', [''B'']), (''B'', [''A'']), (''C'', [''A''])]
         [(''A'', 1 / 3), (''B'', 1 / 3), (''C'', 1 / 3)] []
       = Inr ([(''A'', 1001 / 3000), (''B'', 1 / 3), (''C'', 333 / 1000)],
              [(''A'', [''B'']), (''B'', [''A'']), (''C'', [''A''])])
   \<and> hasConverged [(''A'', 1001 / 3000), (''B'', 1 / 3), (''C'', 333 / 1000)]
         [(''A'', 1 / 3), (''B'', 1 / 3), (''C'', 1 / 3)] = Inr True
   \<and> iterate_pagerank [(''A'', [''B'']), (''B'', [''A'']), (''C'', [''A''])] (1 / 1000)
       = Some (Inr ([(''A'', 1 / 3), (''B'', 1 / 3), (''C'', 1 / 3)],
                    [(''A'', [''B'']), (''B'', [''A'']), (''C'', [''A''])]))
   \<and> [(''A'', 1 / 3), (''B'', 1 / 3), (''C'', 1 / 3 :: real)]
       \<noteq> [(''A'', 1001 / 3000), (''B'', 1 / 3), (''C'', 333 / 1000)]"
proof -
  have h: "hasConverged [(''A'', 1001 / 3000), (''B'', 1 / 3), (''C'', 333 / 1000)]
         [(''A'', 1 / 3), (''B'', 1 / 3), (''C'', 1 / 3)] = Inr True"
    by (simp add: hasConverged_def dict_keys_def dict_get_def)
  have i: "iterate_pagerank [(''A'', [''B'']), (''B'', [''A'']), (''C'', [''A''])] (1 / 1000)
       = Some (Inr ([(''A'', 1 / 3), (''B'', 1 / 3), (''C'', 1 / 3)],
                    [(''A'', [''B'']), (''B'', [''A'']), (''C'', [''A''])]))"
  proof -
    have init: "init_ranks [(''A'', [''B'']), (''B'', [''A'']), (''C'', [''A''])] (1 / 3)
                  = [(''A'', 1 / 3), (''B'', 1 / 3), (''C'', 1 / 3)]"
      by (simp add: init_ranks_def dict_keys_def dict_set_def)
    have keys: "dict_keys [(''A'', 1 / 3), (''B'', 1 / 3), (''C'', 1 / 3 :: real)]
                  = [''A'', ''B'', ''C'']"
      by (simp add: dict_keys_def)
    show ?thesis
      apply (simp add: iterate_pagerank_def init Let_def)
      apply (subst iterate_loop.simps)
      apply (simp add: keys sweep_three_pages h del: sweep.simps)
      done
  qed
  show ?thesis using sweep_three_pages h i by simp
qed

text \<open>
  C2, amended: when a sweep produces new ranks whose difference from the previous
  ranks is at most 0.001 in absolute value for every page (the threshold is the
  constant 0.001 of \<open>hasConverged\<close>; the source has no threshold parameter), the
  iterative estimator leaves its loop and returns the previous ranks, together with
  the corpus as the sweep left it.
\<close>

theorem converged_returns_previous_ranks:
  assumes "sweep damping_factor numPage (dict_keys pageRanks) corpus pageRanks newRanks
             = Inr (newRanks', corpus')"
    and "set (dict_keys newRanks) \<subseteq> set (dict_keys pageRanks)"
    and "list_all (\<lambda>p. \<bar>rank_of newRanks' p - rank_of pageRanks p\<bar> \<le> 1 / 1000)
           (dict_keys newRanks')"
  shows "iterate_loop damping_factor numPage corpus pageRanks newRanks
           = Some (Inr (pageRanks, corpus'))"
proof -
  have "set (dict_keys newRanks') \<subseteq> set (dict_keys pageRanks)"
    using sweep_keys [OF assms(1)] assms(2) by auto
  then have "hasConverged newRanks' pageRanks = Inr True"
    using assms(3) by (simp add: hasConverged_def hasConverged_loop_eq)
  then show ?thesis
    using assms(1) by (subst iterate_loop.simps) simp
qed

theorem converged_returns_previous_ranks_witness:
  "sweep (1 / 1000) 3 (dict_keys [(''A'', 1 / 3), (''B'', 1 / 3), (''C'', 1 / 3 :: real)])
         [(''A'', [''B'']), (''B'', [''A'']), (''C'', [''A''])]
         [(''A'', 1 / 3), (''B'', 1 / 3), (''C'', 1 / 3)] []
       = Inr ([(''A'', 1001 / 3000), (''B'', 1 / 3), (''C'', 333 / 1000)],
              [(''A'', [''B'']), (''B'', [''A'']), (''C'', [''A''])])
   \<and> set (dict_keys ([] :: (string, real) dict))
        \<subseteq> set (dict_keys [(''A'', 1 / 3), (''B'', 1 / 3), (''C'', 1 / 3 :: real)])
   \<and> list_all (\<lambda>p. \<bar>rank_of [(''A'', 1001 / 3000), (''B'', 1 / 3), (''C'', 333 / 1000)] p
                     - rank_of [(''A'', 1 / 3), (''B'', 1 / 3), (''C'', 1 / 3 :: real)] p\<bar>
                    \<le> 1 / 1000)
        (dict_keys [(''A'', 1001 / 3000), (''B'', 1 / 3), (''C'', 333 / 1000 :: real)])
   \<and> iterate_loop (1 / 1000) 3 [(''A'', [''B'']), (''B'', [''A'']), (''C'', [''A''])]
        [(''A'', 1 / 3), (''B'', 1 / 3), (''C'', 1 / 3)] []
       = Some (Inr ([(''A'', 1 / 3), (''B'', 1 / 3), (''C'', 1 / 3)],
                    [(''A'', [''B'']), (''B'', [''A'']), (''C'', [''A''])]))"
proof -
  have s: "sweep (1 / 1000) 3 (dict_keys [(''A'', 1 / 3), (''B'', 1 / 3), (''C'', 1 / 3 :: real)])
         [(''A'', [''B'']), (''B'', [''A'']), (''C'', [''A''])]
         [(''A'', 1 / 3), (''B'', 1 / 3), (''C'', 1 / 3)] []
       = Inr ([(''A'', 1001 / 3000), (''B'', 1 / 3), (''C'', 333 / 1000)],
              [(''A'', [''B'']), (''B'', [''A'']), (''C'', [''A''])])"
    by (simp add: calculate_pagerank_def dict_keys_def dict_set_def dict_get_def Let_def)
  have k: "set (dict_keys ([] :: (string, real) dict))
        \<subseteq> set (dict_keys [(''A'', 1 / 3), (''B'', 1 / 3), (''C'', 1 / 3 :: real)])"
    by (simp add: dict_keys_def)
  have c: "list_all (\<lambda>p. \<bar>rank_of [(''A'', 1001 / 3000), (''B'', 1 / 3), (''C'', 333 / 1000)] p
                     - rank_of [(''A'', 1 / 3), (''B'', 1 / 3), (''C'', 1 / 3 :: real)] p\<bar>
                    \<le> 1 / 1000)
        (dict_keys [(''A'', 1001 / 3000), (''B'', 1 / 3), (''C'', 333 / 1000 :: real)])"
    by (simp add: dict_keys_def rank_of_def)
  show ?thesis
    using s k c converged_returns_previous_ranks [OF s k c] by simp
qed

section \<open>The sweep in closed form\<close>

lemma dict_get_middle:
  "q \<notin> fst ` set pre \<Longrightarrow> dict_get (pre @ (q, x) # rest) q = Inr x"
  by (induction pre) (auto simp: dict_get_def)

lemma dict_set_middle:
  "q \<notin> fst ` set pre \<Longrightarrow> dict_set (pre @ (q, x) # rest) q v = pre @ (q, v) # rest"
  by (induction pre) (auto simp: dict_set_def)

lemma getAllPages_cong: "dict_keys c = dict_keys c' \<Longrightarrow> getAllPages c = getAllPages c'"
  by (simp add: getAllPages_def)

lemma calc_loop_eq:
  assumes "distinct (map fst (pre @ rest))"
    and "set (map fst rest) \<subseteq> set (dict_keys pr)"
    and "getAllPages (pre @ rest) = allp"
  shows "calc_loop page pr (map fst rest) (pre @ rest) sigma =
           Inr (sigma + sigma_closed allp pr page rest,
                pre @ map (\<lambda>(q, ls). (q, if ls = [] then allp else ls)) rest)"
  using assms
proof (induction rest arbitrary: pre sigma)
  case Nil
  then show ?case by (simp add: sigma_closed_def)
next
  case (Cons e rest)
  obtain q ls where e: "e = (q, ls)" by (cases e)
  have q: "q \<notin> fst ` set pre" using Cons.prems(1) e by auto
  have qk: "q \<in> set (dict_keys pr)" using Cons.prems(2) e by simp
  define ls' where "ls' = (if ls = [] then allp else ls)"
  have d1: "distinct (map fst ((pre @ [(q, ls')]) @ rest))" using Cons.prems(1) e by auto
  have d2: "set (map fst rest) \<subseteq> set (dict_keys pr)" using Cons.prems(2) by simp
  have "dict_keys ((pre @ [(q, ls')]) @ rest) = dict_keys (pre @ e # rest)"
    by (simp add: dict_keys_def e)
  then have d3: "getAllPages ((pre @ [(q, ls')]) @ rest) = allp"
    using Cons.prems(3) getAllPages_cong by metis
  have app: "(pre @ [(q, ls')]) @ rest = pre @ (q, ls') # rest" by simp
  note IH = Cons.IH [OF d1 d2 d3, unfolded app]
  have ga: "getAllPages (pre @ (q, ls) # rest) = allp" using Cons.prems(3) e by simp
  have g1: "dict_get (pre @ (q, ls) # rest) q = Inr ls" by (rule dict_get_middle [OF q])
  have c1: "(if length ls = 0
             then dict_set (pre @ (q, ls) # rest) q (getAllPages (pre @ (q, ls) # rest))
             else pre @ (q, ls) # rest) = pre @ (q, ls') # rest"
    using ga by (auto simp: dict_set_middle [OF q] ls'_def)
  have g2: "dict_get (pre @ (q, ls') # rest) q = Inr ls'" by (rule dict_get_middle [OF q])
  have nz: "page \<in> set ls' \<Longrightarrow> length ls' \<noteq> 0" by auto
  have sc: "sigma_closed allp pr page (e # rest) =
      (if page \<in> set ls' then rank_of pr q / real (length ls') else 0)
      + sigma_closed allp pr page rest"
    by (simp add: sigma_closed_def e ls'_def)
  have mp: "map (\<lambda>(q, ls). (q, if ls = [] then allp else ls)) (e # rest)
              = (q, ls') # map (\<lambda>(q, ls). (q, if ls = [] then allp else ls)) rest"
    by (simp add: e ls'_def)
  have "calc_loop page pr (map fst (e # rest)) (pre @ e # rest) sigma =
          (if page \<notin> set ls' then calc_loop page pr (map fst rest) (pre @ (q, ls') # rest) sigma
           else calc_loop page pr (map fst rest) (pre @ (q, ls') # rest)
                  (sigma + rank_of pr q / real (length ls')))"
    by (auto simp: e g1 c1 g2 dict_get_rank_of [OF qk] Let_def simp del: length_0_conv)
  also have "\<dots> = Inr (sigma + sigma_closed allp pr page (e # rest),
                pre @ map (\<lambda>(q, ls). (q, if ls = [] then allp else ls)) (e # rest))"
    unfolding mp sc by (simp add: IH)
  finally show ?case .
qed

lemma calculate_pagerank_eq:
  assumes "distinct (dict_keys corpus)"
    and "set (dict_keys corpus) \<subseteq> set (dict_keys pr)"
    and "numPage \<noteq> 0"
  shows "calculate_pagerank page numPage corpus pr d =
           Inr ((1 - d) / real_of_int numPage
                  + d * sigma_closed (getAllPages corpus) pr page corpus,
                spec_normalize corpus)"
  using calc_loop_eq [of "[]" corpus pr "getAllPages corpus" page 0] assms
  by (simp add: calculate_pagerank_def dict_keys_def spec_normalize_def)

lemma dict_keys_spec_normalize: "dict_keys (spec_normalize c) = dict_keys c"
  by (simp add: spec_normalize_def dict_keys_def case_prod_unfold comp_def)

lemma getAllPages_spec_normalize: "getAllPages (spec_normalize c) = getAllPages c"
  by (rule getAllPages_cong) (rule dict_keys_spec_normalize)

lemma spec_normalize_idem: "spec_normalize (spec_normalize c) = spec_normalize c"
proof -
  have "map (\<lambda>(q, ls). (q, if ls = [] then a else ls))
          (map (\<lambda>(q, ls). (q, if ls = [] then a else ls)) c)
        = map (\<lambda>(q, ls). (q, if ls = [] then a else ls)) c" for a :: "'a list"
    by (induction c) auto
  then show ?thesis
    unfolding spec_normalize_def [of "spec_normalize c"] getAllPages_spec_normalize
    by (simp add: spec_normalize_def)
qed

lemma sigma_closed_map_normalize:
  "sigma_closed a pr page (map (\<lambda>(q, ls). (q, if ls = [] then a else ls)) c)
     = sigma_closed a pr page c"
  by (induction c) (auto simp: sigma_closed_def)

lemma sigma_closed_spec_normalize:
  "sigma_closed (getAllPages c) pr page (spec_normalize c) = sigma_closed (getAllPages c) pr page c"
  by (simp add: spec_normalize_def sigma_closed_map_normalize)

lemma calculate_pagerank_state:
  assumes "distinct (dict_keys corpus)"
    and "set (dict_keys corpus) \<subseteq> set (dict_keys pr)"
    and "numPage \<noteq> 0"
    and "c = corpus \<or> c = spec_normalize corpus"
  shows "calculate_pagerank page numPage c pr d =
           Inr ((1 - d) / real_of_int numPage
                  + d * sigma_closed (getAllPages corpus) pr page corpus,
                spec_normalize corpus)"
proof -
  have "distinct (dict_keys c)" "set (dict_keys c) \<subseteq> set (dict_keys pr)"
    using assms by (auto simp: dict_keys_spec_normalize)
  from calculate_pagerank_eq [OF this assms(3)] assms(4) show ?thesis
    by (auto simp: spec_normalize_idem getAllPages_spec_normalize sigma_closed_spec_normalize)
qed

lemma sweep_eq:
  assumes "distinct (dict_keys corpus)"
    and "set (dict_keys corpus) \<subseteq> set (dict_keys pr)"
    and "numPage \<noteq> 0"
    and "c = corpus \<or> c = spec_normalize corpus"
  shows "sweep d numPage ps c pr nr =
           Inr (foldl (\<lambda>nr p. dict_set nr p
                         ((1 - d) / real_of_int numPage
                            + d * sigma_closed (getAllPages corpus) pr p corpus)) nr ps,
                if ps = [] then c else spec_normalize corpus)"
  using assms(4)
proof (induction ps arbitrary: c nr)
  case Nil
  then show ?case by simp
next
  case (Cons p ps)
  show ?case
    using calculate_pagerank_state [OF assms(1-3) Cons.prems] Cons.IH [of "spec_normalize corpus"]
    by simp
qed

lemma map_of_foldl_dict_set:
  "map_of (foldl (\<lambda>nr p. dict_set nr p (f p)) nr ps) p
     = (if p \<in> set ps then Some (f p) else map_of nr p)"
  by (induction ps arbitrary: nr) (auto simp: map_of_dict_set)

lemma sigma_closed_filter:
  assumes "distinct (dict_keys corpus)"
    and "list_all (\<lambda>(q, ls). distinct ls) corpus"
    and "set entries \<subseteq> set corpus"
  shows "sigma_closed (getAllPages corpus) pr p entries =
           sum_list (map (\<lambda>q. rank_of pr q / real (card (spec_outlinks corpus q)))
                       (filter (\<lambda>q. p \<in> spec_outlinks corpus q) (map fst entries)))"
  using assms(3)
proof (induction entries)
  case Nil
  then show ?case by (simp add: sigma_closed_def)
next
  case (Cons e entries)
  obtain q ls where e: "e = (q, ls)" by (cases e)
  have mem: "(q, ls) \<in> set corpus" using Cons.prems e by simp
  have m: "map_of corpus q = Some ls"
    using assms(1) mem by (simp add: dict_keys_def)
  have dl: "distinct ls" using assms(2) mem by (auto simp: list_all_iff)
  have ga: "getAllPages corpus = dict_keys corpus" using assms(1) by (rule getAllPages_keys)
  define ls' where "ls' = (if ls = [] then getAllPages corpus else ls)"
  have so: "spec_outlinks corpus q = set ls'"
    by (simp add: spec_outlinks_def m ls'_def ga)
  have "distinct ls'" using dl assms(1) by (simp add: ls'_def ga)
  then have cd: "card (set ls') = length ls'" by (rule distinct_card)
  have sc: "sigma_closed (getAllPages corpus) pr p (e # entries) =
      (if p \<in> set ls' then rank_of pr q / real (length ls') else 0)
      + sigma_closed (getAllPages corpus) pr p entries"
    by (simp add: sigma_closed_def e ls'_def)
  show ?case
    unfolding sc using Cons.IH Cons.prems by (simp add: e so cd)
qed

lemma init_ranks_eq:
  "distinct (dict_keys corpus) \<Longrightarrow>
   init_ranks corpus r = map (\<lambda>p. (p, r)) (dict_keys corpus)"
  using foldl_dict_set_new [of "dict_keys corpus" "[]" r] by (simp add: init_ranks_def)

lemma iterate_loop_corpus:
  assumes "iterate_loop d N c pr nr = Some y"
    and "distinct (dict_keys corpus)"
    and "N \<noteq> 0"
    and "c = corpus \<or> c = spec_normalize corpus"
    and "set (dict_keys corpus) \<subseteq> set (dict_keys pr)"
    and "dict_keys pr \<noteq> []"
    and "y = Inr (ranks, c')"
  shows "c' = spec_normalize corpus"
  using assms
proof (induction d N c pr nr y arbitrary: ranks c'
    rule: iterate_loop.raw_induct [rotated 1, consumes 1, case_names step])
  case (step iterate_loop d N c pr nr y)
  have dist: "distinct (dict_keys corpus)" by fact
  have n0: "N \<noteq> 0" by fact
  have cc: "c = corpus \<or> c = spec_normalize corpus" by fact
  have sub: "set (dict_keys corpus) \<subseteq> set (dict_keys pr)" by fact
  have pne: "dict_keys pr \<noteq> []" by fact
  have y: "y = Inr (ranks, c')" by fact
  define nr' where "nr' = foldl (\<lambda>nr p. dict_set nr p
                         ((1 - d) / real_of_int N
                            + d * sigma_closed (getAllPages corpus) pr p corpus)) nr (dict_keys pr)"
  have sw: "sweep d N (dict_keys pr) c pr nr = Inr (nr', spec_normalize corpus)"
    using sweep_eq [OF dist sub n0 cc, of d "dict_keys pr" nr] pne
    by (simp add: nr'_def)
  have keys: "set (dict_keys corpus) \<subseteq> set (dict_keys nr')"
    using sweep_keys [OF sw] sub by auto
  have ne: "dict_keys nr' \<noteq> []"
    using sweep_keys [OF sw] pne by auto
  have eq: "(case hasConverged nr' pr of
               Inl e \<Rightarrow> Some (Inl e)
             | Inr converged \<Rightarrow>
                 if converged then Some (Inr (pr, spec_normalize corpus))
                 else iterate_loop d N (spec_normalize corpus) nr' nr') = Some y"
    using step.hyps step.prems by (simp add: sw)
  show ?case
  proof (cases "hasConverged nr' pr")
    case (Inl e)
    then show ?thesis using eq y by simp
  next
    case (Inr b)
    show ?thesis
    proof (cases b)
      case True
      then show ?thesis using eq y Inr by simp
    next
      case False
      then have "iterate_loop d N (spec_normalize corpus) nr' nr' = Some y"
        using eq Inr by simp
      then show ?thesis
        using step.IH [of d N "spec_normalize corpus" nr' nr' y ranks c'] dist n0 keys ne y
        by blast
    qed
  qed
qed

section \<open>The recurrence\<close>

text \<open>
  C3: for every graph with at least one page (distinct keys, outlink sets without
  repetition) and every damping factor, a sweep of the iterative estimator, started
  on the graph as given or as already normalized and on any ranks that cover the
  pages, raises no error and computes for every page p the new rank
  (1 - damping_factor)/N + damping_factor * (sum over the pages q whose outlinks
  contain p of rank(q)/|outlinks(q)|), where a page without outlinks counts as
  linking to all N pages; and the estimator enters its loop with rank 1/N for
  every page.
\<close>

theorem sweep_computes_recurrence:
  assumes "distinct (dict_keys corpus)"
    and "list_all (\<lambda>(q, ls). distinct ls) corpus"
    and "corpus \<noteq> []"
    and "set (dict_keys corpus) \<subseteq> set (dict_keys pageRanks)"
    and "c = corpus \<or> c = spec_normalize corpus"
  shows "(\<exists>newRanks'.
            sweep damping_factor (int (length corpus)) (dict_keys pageRanks) c pageRanks newRanks
              = Inr (newRanks', spec_normalize corpus)
            \<and> list_all (\<lambda>p. map_of newRanks' p
                               = Some (spec_new_rank damping_factor corpus (rank_of pageRanks) p))
                 (dict_keys pageRanks)
            \<and> set (dict_keys corpus) \<subseteq> set (dict_keys newRanks'))
         \<and> iterate_pagerank corpus damping_factor
             = iterate_loop damping_factor (int (length corpus)) corpus
                 (map (\<lambda>p. (p, 1 / real (length corpus))) (dict_keys corpus)) []"
proof -
  have n0: "int (length corpus) \<noteq> 0" using assms(3) by simp
  have "dict_keys corpus \<noteq> []" using assms(3) by (simp add: dict_keys_def)
  then have ne: "dict_keys pageRanks \<noteq> []" using assms(4) by auto
  have sg: "(1 - damping_factor) / real (length corpus)
              + damping_factor * sigma_closed (getAllPages corpus) pageRanks p corpus
            = spec_new_rank damping_factor corpus (rank_of pageRanks) p" for p
    using sigma_closed_filter [OF assms(1,2), of corpus pageRanks p]
    by (simp add: spec_new_rank_def dict_keys_def)
  have sw: "sweep damping_factor (int (length corpus)) (dict_keys pageRanks) c pageRanks newRanks
          = Inr (foldl (\<lambda>nr p. dict_set nr p
                          (spec_new_rank damping_factor corpus (rank_of pageRanks) p))
                   newRanks (dict_keys pageRanks),
                 spec_normalize corpus)"
    using sweep_eq [OF assms(1) assms(4) n0 assms(5), of damping_factor "dict_keys pageRanks" newRanks] ne
    by (simp add: sg)
  have "set (dict_keys corpus)
          \<subseteq> set (dict_keys (foldl (\<lambda>nr p. dict_set nr p
                          (spec_new_rank damping_factor corpus (rank_of pageRanks) p))
                   newRanks (dict_keys pageRanks)))"
    using sweep_keys [OF sw] assms(4) by auto
  moreover note sw
  moreover have "list_all (\<lambda>p. map_of (foldl (\<lambda>nr p. dict_set nr p
                          (spec_new_rank damping_factor corpus (rank_of pageRanks) p))
                   newRanks (dict_keys pageRanks)) p
                    = Some (spec_new_rank damping_factor corpus (rank_of pageRanks) p))
                 (dict_keys pageRanks)"
    by (simp add: list_all_iff map_of_foldl_dict_set)
  moreover have "iterate_pagerank corpus damping_factor
             = iterate_loop damping_factor (int (length corpus)) corpus
                 (map (\<lambda>p. (p, 1 / real (length corpus))) (dict_keys corpus)) []"
    using assms(3) by (simp add: iterate_pagerank_def init_ranks_eq [OF assms(1)])
  ultimately show ?thesis by blast
qed

theorem sweep_computes_recurrence_witness:
  "distinct (dict_keys [(''A'', [''B'']), (''B'', [])])
   \<and> list_all (\<lambda>(q, ls). distinct ls) [(''A'', [''B'']), (''B'', [])]
   \<and> [(''A'', [''B'']), (''B'', [])] \<noteq> []
   \<and> set (dict_keys [(''A'', [''B'']), (''B'', [])])
        \<subseteq> set (dict_keys [(''A'', 1 / 2), (''B'', 1 / 2 :: real)])
   \<and> (\<exists>newRanks'.
          sweep (85 / 100) (int (length [(''A'', [''B'']), (''B'', [])]))
            (dict_keys [(''A'', 1 / 2), (''B'', 1 / 2 :: real)])
            [(''A'', [''B'']), (''B'', [])] [(''A'', 1 / 2), (''B'', 1 / 2)] []
            = Inr (newRanks', [(''A'', [''B'']), (''B'', [''A'', ''B''])])
          \<and> map_of newRanks' ''A'' = Some (23 / 80)
          \<and> map_of newRanks' ''B'' = Some (57 / 80))
   \<and> iterate_pagerank [(''A'', [''B'']), (''B'', [])] (85 / 100)
       = iterate_loop (85 / 100) 2 [(''A'', [''B'']), (''B'', [])]
           [(''A'', 1 / 2), (''B'', 1 / 2)] []"
proof -
  let ?c = "[(''A'', [''B'']), (''B'', [])] :: string corpus"
  let ?pr = "[(''A'', 1 / 2), (''B'', 1 / 2)] :: (string, real) dict"
  have h1: "distinct (dict_keys ?c)" by (simp add: dict_keys_def)
  have h2: "list_all (\<lambda>(q, ls). distinct ls) ?c" by simp
  have h3: "?c \<noteq> []" by simp
  have h4: "set (dict_keys ?c) \<subseteq> set (dict_keys ?pr)" by (simp add: dict_keys_def)
  have h5: "?c = ?c \<or> ?c = spec_normalize ?c" by simp
  have n: "spec_normalize ?c = [(''A'', [''B'']), (''B'', [''A'', ''B''])]"
    by (simp add: spec_normalize_def getAllPages_def dict_keys_def set_add_def)
  have oA: "spec_outlinks ?c ''A'' = {''B''}" and oB: "spec_outlinks ?c ''B'' = {''A'', ''B''}"
    by (simp_all add: spec_outlinks_def dict_keys_def)
  have cA: "card {''B''} = 1" and cB: "card {''A'', ''B''} = 2" by simp_all
  have rA: "spec_new_rank (85 / 100) ?c (rank_of ?pr) ''A'' = 23 / 80"
    by (simp add: spec_new_rank_def dict_keys_def oA oB cA cB rank_of_def)
  have rB: "spec_new_rank (85 / 100) ?c (rank_of ?pr) ''B'' = 57 / 80"
    by (simp add: spec_new_rank_def dict_keys_def oA oB cA cB rank_of_def)
  have k: "dict_keys ?pr = [''A'', ''B'']" by (simp add: dict_keys_def)
  from sweep_computes_recurrence [OF h1 h2 h3 h4 h5, of "85 / 100" "[]"]
  obtain newRanks' where
    s: "sweep (85 / 100) (int (length ?c)) (dict_keys ?pr) ?c ?pr [] 
          = Inr (newRanks', spec_normalize ?c)"
    and la: "list_all (\<lambda>p. map_of newRanks' p
                              = Some (spec_new_rank (85 / 100) ?c (rank_of ?pr) p))
               (dict_keys ?pr)"
    and ks: "set (dict_keys ?c) \<subseteq> set (dict_keys newRanks')"
    and it: "iterate_pagerank ?c (85 / 100)
               = iterate_loop (85 / 100) (int (length ?c)) ?c
                   (map (\<lambda>p. (p, 1 / real (length ?c))) (dict_keys ?c)) []"
    by blast
  have mA: "map_of newRanks' ''A'' = Some (23 / 80)"
    and mB: "map_of newRanks' ''B'' = Some (57 / 80)"
    using la unfolding k rA [symmetric] rB [symmetric] by simp_all
  have e: "\<exists>newRanks'.
          sweep (85 / 100) (int (length ?c)) (dict_keys ?pr) ?c ?pr []
            = Inr (newRanks', [(''A'', [''B'']), (''B'', [''A'', ''B''])])
          \<and> map_of newRanks' ''A'' = Some (23 / 80)
          \<and> map_of newRanks' ''B'' = Some (57 / 80)"
    using s mA mB unfolding n by blast
  have i: "iterate_pagerank ?c (85 / 100)
       = iterate_loop (85 / 100) 2 ?c [(''A'', 1 / 2), (''B'', 1 / 2)] []"
    using it by (simp add: dict_keys_def)
  show ?thesis using h1 h2 h3 h4 e i by blast
qed

section \<open>Termination of the loop\<close>

text \<open>
  A sweep shrinks the summed change of rank by the factor \<open>\<bar>damping_factor\<bar>\<close>, because
  the shares that a page passes on add up to at most 1.  For a damping factor of
  absolute value below 1 the change therefore falls to 0.001 after finitely many
  sweeps, and the loop is left.
\<close>

lemma sigma_closed_weight:
  "sigma_closed allp pr page entries
     = sum_list (map (\<lambda>e. link_weight allp page (snd e) * rank_of pr (fst e)) entries)"
  by (induction entries) (auto simp: sigma_closed_def link_weight_def)

lemma link_weight_nonneg: "0 \<le> link_weight allp p ls"
  by (simp add: link_weight_def)

lemma sum_list_indicator:
  "sum_list (map (\<lambda>p. if P p then c else 0) ks) = real (length (filter P ks)) * (c :: real)"
  by (induction ks) (auto simp: algebra_simps)

lemma link_weight_column:
  assumes "distinct ks"
  shows "sum_list (map (\<lambda>p. link_weight allp p ls) ks) \<le> 1"
proof -
  define ls' where "ls' = (if ls = [] then allp else ls)"
  have "distinct (filter (\<lambda>p. p \<in> set ls') ks)" using assms by simp
  then have "length (filter (\<lambda>p. p \<in> set ls') ks) = card (set (filter (\<lambda>p. p \<in> set ls') ks))"
    by (rule distinct_card [symmetric])
  also have "\<dots> \<le> card (set ls')" by (intro card_mono) auto
  also have "\<dots> \<le> length ls'" by (rule card_length)
  finally have le: "length (filter (\<lambda>p. p \<in> set ls') ks) \<le> length ls'" .
  have "sum_list (map (\<lambda>p. link_weight allp p ls) ks)
          = real (length (filter (\<lambda>p. p \<in> set ls') ks)) * (1 / real (length ls'))"
    unfolding link_weight_def ls'_def [symmetric] by (rule sum_list_indicator)
  also have "\<dots> \<le> 1"
  proof (cases "ls' = []")
    case True
    then show ?thesis by simp
  next
    case False
    then have "0 < real (length ls')" by simp
    then show ?thesis using le by (simp add: divide_le_eq)
  qed
  finally show ?thesis .
qed

lemma sum_list_swap:
  fixes f :: "'a \<Rightarrow> 'b \<Rightarrow> real"
  shows "sum_list (map (\<lambda>p. sum_list (map (\<lambda>e. f p e) es)) ps)
           = sum_list (map (\<lambda>e. sum_list (map (\<lambda>p. f p e) ps)) es)"
  by (induction ps) (simp_all add: sum_list_addf)

lemma weighted_l1_bound:
  fixes w :: "'a \<Rightarrow> 'b \<Rightarrow> real" and z :: "'b \<Rightarrow> real"
  assumes nonneg: "\<And>p e. 0 \<le> w p e"
    and column: "\<And>e. sum_list (map (\<lambda>p. w p e) ps) \<le> 1"
  shows "sum_list (map (\<lambda>p. \<bar>sum_list (map (\<lambda>e. w p e * z e) es)\<bar>) ps)
           \<le> sum_list (map (\<lambda>e. \<bar>z e\<bar>) es)"
proof -
  have "sum_list (map (\<lambda>p. \<bar>sum_list (map (\<lambda>e. w p e * z e) es)\<bar>) ps)
          \<le> sum_list (map (\<lambda>p. sum_list (map (\<lambda>e. w p e * \<bar>z e\<bar>) es)) ps)"
  proof (rule sum_list_mono)
    fix p
    have "\<bar>sum_list (map (\<lambda>e. w p e * z e) es)\<bar>
            \<le> sum_list (map abs (map (\<lambda>e. w p e * z e) es))"
      by (rule sum_list_abs)
    also have "\<dots> = sum_list (map (\<lambda>e. w p e * \<bar>z e\<bar>) es)"
      using nonneg by (simp add: comp_def abs_mult)
    finally show "\<bar>sum_list (map (\<lambda>e. w p e * z e) es)\<bar>
                    \<le> sum_list (map (\<lambda>e. w p e * \<bar>z e\<bar>) es)" .
  qed
  also have "\<dots> = sum_list (map (\<lambda>e. sum_list (map (\<lambda>p. w p e * \<bar>z e\<bar>) ps)) es)"
    by (rule sum_list_swap)
  also have "\<dots> = sum_list (map (\<lambda>e. sum_list (map (\<lambda>p. w p e) ps) * \<bar>z e\<bar>) es)"
    by (simp add: sum_list_mult_const)
  also have "\<dots> \<le> sum_list (map (\<lambda>e. \<bar>z e\<bar>) es)"
  proof (rule sum_list_mono)
    fix e
    show "sum_list (map (\<lambda>p. w p e) ps) * \<bar>z e\<bar> \<le> \<bar>z e\<bar>"
      using column [of e] by (simp add: mult_left_le_one_le mult_le_cancel_right2)
  qed
  finally show ?thesis .
qed

lemma sweep_change_contracts:
  assumes "distinct (dict_keys corpus)"
    and "\<And>p. p \<in> set (dict_keys corpus) \<Longrightarrow> rank_of nr' p = sweep_rank d N corpus pr p"
  shows "sweep_change d N corpus nr' \<le> \<bar>d\<bar> * sweep_change d N corpus pr"
proof -
  define allp where "allp = getAllPages corpus"
  define z where "z q = sweep_rank d N corpus pr q - rank_of pr q" for q
  have diff: "sweep_rank d N corpus nr' p - rank_of nr' p
                = d * sum_list (map (\<lambda>e. link_weight allp p (snd e) * z (fst e)) corpus)"
    if "p \<in> set (dict_keys corpus)" for p
  proof -
    have "sum_list (map (\<lambda>e. link_weight allp p (snd e) * rank_of nr' (fst e)) corpus)
            - sum_list (map (\<lambda>e. link_weight allp p (snd e) * rank_of pr (fst e)) corpus)
          = sum_list (map (\<lambda>e. link_weight allp p (snd e) * (rank_of nr' (fst e) - rank_of pr (fst e)))
                        corpus)"
      by (simp add: sum_list_subtractf right_diff_distrib)
    also have "\<dots> = sum_list (map (\<lambda>e. link_weight allp p (snd e) * z (fst e)) corpus)"
    proof (rule arg_cong [where f = sum_list], rule map_cong [OF refl])
      fix e assume "e \<in> set corpus"
      then have "fst e \<in> set (dict_keys corpus)" by (simp add: dict_keys_def)
      then show "link_weight allp p (snd e) * (rank_of nr' (fst e) - rank_of pr (fst e))
                   = link_weight allp p (snd e) * z (fst e)"
        by (simp add: assms(2) z_def)
    qed
    finally have s: "sigma_closed allp nr' p corpus - sigma_closed allp pr p corpus
                       = sum_list (map (\<lambda>e. link_weight allp p (snd e) * z (fst e)) corpus)"
      by (simp add: sigma_closed_weight)
    have "sweep_rank d N corpus nr' p - rank_of nr' p
            = sweep_rank d N corpus nr' p - sweep_rank d N corpus pr p"
      using that by (simp add: assms(2))
    also have "\<dots> = d * (sigma_closed allp nr' p corpus - sigma_closed allp pr p corpus)"
      by (simp add: sweep_rank_def allp_def right_diff_distrib)
    finally show ?thesis by (simp add: s)
  qed
  have "sweep_change d N corpus nr'
          = sum_list (map (\<lambda>p. \<bar>d\<bar> * \<bar>sum_list (map (\<lambda>e. link_weight allp p (snd e) * z (fst e)) corpus)\<bar>)
                        (dict_keys corpus))"
    unfolding sweep_change_def
    by (rule arg_cong [where f = sum_list], rule map_cong [OF refl]) (simp add: diff abs_mult)
  also have "\<dots> = \<bar>d\<bar> * sum_list (map (\<lambda>p. \<bar>sum_list (map (\<lambda>e. link_weight allp p (snd e) * z (fst e)) corpus)\<bar>)
                        (dict_keys corpus))"
    by (simp add: sum_list_const_mult)
  also have "\<dots> \<le> \<bar>d\<bar> * sum_list (map (\<lambda>e. \<bar>z (fst e)\<bar>) corpus)"
    by (intro mult_left_mono weighted_l1_bound link_weight_nonneg link_weight_column assms(1)) simp
  also have "sum_list (map (\<lambda>e. \<bar>z (fst e)\<bar>) corpus) = sweep_change d N corpus pr"
    by (simp add: sweep_change_def dict_keys_def z_def comp_def)
  finally show ?thesis .
qed

lemma elem_le_sum_list_nonneg:
  fixes xs :: "real list"
  shows "\<forall>x\<in>set xs. 0 \<le> x \<Longrightarrow> y \<in> set xs \<Longrightarrow> y \<le> sum_list xs"
proof (induction xs)
  case Nil
  then show ?case by simp
next
  case (Cons x xs)
  have nn: "0 \<le> sum_list xs" using Cons.prems(1) by (intro sum_list_nonneg) simp
  show ?case
  proof (cases "y = x")
    case True
    then show ?thesis using nn by simp
  next
    case False
    then have "y \<le> sum_list xs" using Cons by simp
    moreover have "0 \<le> x" using Cons.prems(1) by simp
    ultimately show ?thesis by simp
  qed
qed

lemma sweep_change_nonneg: "0 \<le> sweep_change d N corpus pr"
  unfolding sweep_change_def by (intro sum_list_nonneg) auto

lemma change_le_sweep_change:
  "p \<in> set (dict_keys corpus) \<Longrightarrow>
   \<bar>sweep_rank d N corpus pr p - rank_of pr p\<bar> \<le> sweep_change d N corpus pr"
  unfolding sweep_change_def by (intro elem_le_sum_list_nonneg) auto

lemma iterate_loop_returns:
  assumes dist: "distinct (dict_keys corpus)" and n0: "N \<noteq> 0"
  shows "set (dict_keys pr) = set (dict_keys corpus) \<Longrightarrow> dict_keys pr \<noteq> [] \<Longrightarrow>
         set (dict_keys nr) \<subseteq> set (dict_keys corpus) \<Longrightarrow>
         c = corpus \<or> c = spec_normalize corpus \<Longrightarrow>
         \<bar>d\<bar> ^ k * sweep_change d N corpus pr \<le> 1 / 1000 \<Longrightarrow>
         \<exists>ranks. iterate_loop d N c pr nr = Some (Inr (ranks, spec_normalize corpus))"
proof (induction k arbitrary: pr nr c)
  case (0 pr nr c)
  define nr' where "nr' = foldl (\<lambda>nr p. dict_set nr p (sweep_rank d N corpus pr p)) nr (dict_keys pr)"
  have sub: "set (dict_keys corpus) \<subseteq> set (dict_keys pr)" using "0.prems"(1) by simp
  have sw: "sweep d N (dict_keys pr) c pr nr = Inr (nr', spec_normalize corpus)"
    using sweep_eq [OF dist sub n0 "0.prems"(4), of d "dict_keys pr" nr] "0.prems"(2)
    by (simp add: nr'_def sweep_rank_def [abs_def])
  have keys: "set (dict_keys nr') = set (dict_keys corpus)"
    using sweep_keys [OF sw] "0.prems"(1,3) by auto
  have ro: "rank_of nr' p = sweep_rank d N corpus pr p" if "p \<in> set (dict_keys corpus)" for p
    using that "0.prems"(1) by (simp add: nr'_def rank_of_def map_of_foldl_dict_set)
  have hc: "hasConverged nr' pr
              = Inr (list_all (\<lambda>p. \<bar>rank_of nr' p - rank_of pr p\<bar> \<le> 1 / 1000) (dict_keys nr'))"
    using keys "0.prems"(1) by (simp add: hasConverged_def hasConverged_loop_eq)
  have "list_all (\<lambda>p. \<bar>rank_of nr' p - rank_of pr p\<bar> \<le> 1 / 1000) (dict_keys nr')"
    unfolding list_all_iff
  proof
    fix p assume "p \<in> set (dict_keys nr')"
    then have p: "p \<in> set (dict_keys corpus)" using keys by simp
    have "\<bar>rank_of nr' p - rank_of pr p\<bar> \<le> sweep_change d N corpus pr"
      using change_le_sweep_change [OF p, of d N pr] by (simp add: ro [OF p])
    then show "\<bar>rank_of nr' p - rank_of pr p\<bar> \<le> 1 / 1000" using "0.prems"(5) by simp
  qed
  then have "iterate_loop d N c pr nr = Some (Inr (pr, spec_normalize corpus))"
    by (subst iterate_loop.simps) (simp add: sw hc)
  then show ?case by blast
next
  case (Suc k pr nr c)
  define nr' where "nr' = foldl (\<lambda>nr p. dict_set nr p (sweep_rank d N corpus pr p)) nr (dict_keys pr)"
  have sub: "set (dict_keys corpus) \<subseteq> set (dict_keys pr)" using Suc.prems(1) by simp
  have sw: "sweep d N (dict_keys pr) c pr nr = Inr (nr', spec_normalize corpus)"
    using sweep_eq [OF dist sub n0 Suc.prems(4), of d "dict_keys pr" nr] Suc.prems(2)
    by (simp add: nr'_def sweep_rank_def [abs_def])
  have keys: "set (dict_keys nr') = set (dict_keys corpus)"
    using sweep_keys [OF sw] Suc.prems(1,3) by auto
  have ne: "dict_keys nr' \<noteq> []" using keys Suc.prems(1,2) by auto
  have ro: "rank_of nr' p = sweep_rank d N corpus pr p" if "p \<in> set (dict_keys corpus)" for p
    using that Suc.prems(1) by (simp add: nr'_def rank_of_def map_of_foldl_dict_set)
  have hc: "hasConverged nr' pr
              = Inr (list_all (\<lambda>p. \<bar>rank_of nr' p - rank_of pr p\<bar> \<le> 1 / 1000) (dict_keys nr'))"
    using keys Suc.prems(1) by (simp add: hasConverged_def hasConverged_loop_eq)
  show ?case
  proof (cases "list_all (\<lambda>p. \<bar>rank_of nr' p - rank_of pr p\<bar> \<le> 1 / 1000) (dict_keys nr')")
    case True
    then have "iterate_loop d N c pr nr = Some (Inr (pr, spec_normalize corpus))"
      by (subst iterate_loop.simps) (simp add: sw hc)
    then show ?thesis by blast
  next
    case False
    then have eq: "iterate_loop d N c pr nr = iterate_loop d N (spec_normalize corpus) nr' nr'"
      by (subst iterate_loop.simps) (simp add: sw hc)
    have "sweep_change d N corpus nr' \<le> \<bar>d\<bar> * sweep_change d N corpus pr"
      using dist ro by (rule sweep_change_contracts)
    then have "\<bar>d\<bar> ^ k * sweep_change d N corpus nr'
                 \<le> \<bar>d\<bar> ^ k * (\<bar>d\<bar> * sweep_change d N corpus pr)"
      by (intro mult_left_mono) simp_all
    then have small: "\<bar>d\<bar> ^ k * sweep_change d N corpus nr' \<le> 1 / 1000"
      using Suc.prems(5) by (simp add: mult.assoc mult.left_commute)
    have sub': "set (dict_keys nr') \<subseteq> set (dict_keys corpus)" using keys by simp
    have "\<exists>ranks. iterate_loop d N (spec_normalize corpus) nr' nr'
                    = Some (Inr (ranks, spec_normalize corpus))"
      using Suc.IH [OF keys ne sub' _ small] by simp
    then show ?thesis by (simp add: eq)
  qed
qed

lemma small_power_exists:
  fixes d C :: real
  assumes "\<bar>d\<bar> < 1" and "0 \<le> C"
  shows "\<exists>k. \<bar>d\<bar> ^ k * C \<le> 1 / 1000"
proof (cases "C = 0")
  case True
  then show ?thesis by simp
next
  case False
  then have C: "0 < C" using assms(2) by simp
  then have "0 < 1 / 1000 / C" by simp
  from real_arch_pow_inv [OF this assms(1)] obtain k where "\<bar>d\<bar> ^ k < 1 / 1000 / C" by blast
  then have "\<bar>d\<bar> ^ k * C < 1 / 1000" using C by (simp add: pos_less_divide_eq)
  then show ?thesis by (intro exI [of _ k]) simp
qed

lemma iterate_pagerank_returns:
  assumes "distinct (dict_keys corpus)" and "corpus \<noteq> []" and "\<bar>d\<bar> < 1"
  shows "\<exists>ranks. iterate_pagerank corpus d = Some (Inr (ranks, spec_normalize corpus))"
proof -
  define N where "N = int (length corpus)"
  have n0: "N \<noteq> 0" using assms(2) by (simp add: N_def)
  define pr where "pr = init_ranks corpus (1 / real_of_int N)"
  have prk: "dict_keys pr = dict_keys corpus"
    using init_ranks_eq [OF assms(1)] by (simp add: pr_def dict_keys_def comp_def)
  have ne: "dict_keys pr \<noteq> []" using assms(2) by (simp add: prk) (simp add: dict_keys_def)
  from small_power_exists [OF assms(3) sweep_change_nonneg [of d N corpus pr]]
  obtain k where k: "\<bar>d\<bar> ^ k * sweep_change d N corpus pr \<le> 1 / 1000" by blast
  have s1: "set (dict_keys pr) = set (dict_keys corpus)" by (simp add: prk)
  have s2: "set (dict_keys ([] :: ('a, real) dict)) \<subseteq> set (dict_keys corpus)"
    by (simp add: dict_keys_def)
  have s3: "corpus = corpus \<or> corpus = spec_normalize corpus" by simp
  have "\<exists>ranks. iterate_loop d N corpus pr [] = Some (Inr (ranks, spec_normalize corpus))"
    by (rule iterate_loop_returns [OF assms(1) n0 s1 ne s2 s3 k])
  then show ?thesis
    using assms(2) by (simp add: iterate_pagerank_def Let_def N_def pr_def)
qed

lemma iterate_pagerank_corpus_when_returned:
  assumes "iterate_pagerank corpus damping_factor = Some (Inr (ranks, corpus'))"
    and "distinct (dict_keys corpus)"
  shows "dict_keys corpus' = dict_keys corpus
         \<and> list_all (\<lambda>(q, ls). map_of corpus' q
                                 = Some (if ls = [] then dict_keys corpus else ls)) corpus"
proof -
  have ne: "corpus \<noteq> []" using assms(1) by (auto simp: iterate_pagerank_def)
  then have n0: "int (length corpus) \<noteq> 0" by simp
  have ir: "init_ranks corpus r = map (\<lambda>p. (p, r)) (dict_keys corpus)" for r
    using assms(2) by (rule init_ranks_eq)
  have k: "dict_keys (init_ranks corpus r) = dict_keys corpus" for r
    by (simp add: ir dict_keys_def comp_def)
  have k2: "dict_keys (init_ranks corpus r) \<noteq> []" for r
    using ne by (simp add: k) (simp add: dict_keys_def)
  have "iterate_loop damping_factor (int (length corpus)) corpus
          (init_ranks corpus (1 / real_of_int (int (length corpus)))) []
          = Some (Inr (ranks, corpus'))"
    using assms(1) ne by (simp add: iterate_pagerank_def Let_def)
  from iterate_loop_corpus [OF this assms(2) n0 _ _ k2 refl]
  have c': "corpus' = spec_normalize corpus" by (simp add: k)
  have ga: "getAllPages corpus = dict_keys corpus" using assms(2) by (rule getAllPages_keys)
  have "map_of (map (\<lambda>(q, ls). (q, f ls)) corpus) q = Some (f ls)"
    if "(q, ls) \<in> set corpus" for q ls and f :: "'a list \<Rightarrow> 'a list"
  proof -
    have "map_of corpus q = Some ls" using assms(2) that by (simp add: dict_keys_def)
    then show ?thesis by (simp add: map_of_map)
  qed
  then have "list_all (\<lambda>(q, ls). map_of corpus' q
                                 = Some (if ls = [] then dict_keys corpus else ls)) corpus"
    by (auto simp: c' spec_normalize_def ga list_all_iff)
  moreover have "dict_keys corpus' = dict_keys corpus"
    by (simp add: c' dict_keys_spec_normalize)
  ultimately show ?thesis by simp
qed

section \<open>The corpus after iterate_pagerank\<close>

text \<open>
  C10: the iterative estimator writes into its argument.  On every graph with
  distinct keys: a call on a graph with at least one page and a damping factor of
  absolute value below 1 returns; and whenever a call returns, the corpus has the
  same keys as before, every page whose outlink set was empty now has the set of all
  pages of the corpus, itself included, and every other page has the outlink set it
  had.
\<close>

theorem iterate_pagerank_normalizes_corpus:
  assumes "distinct (dict_keys corpus)"
  shows "(corpus \<noteq> [] \<and> \<bar>damping_factor\<bar> < 1 \<longrightarrow>
            (\<exists>ranks corpus'. iterate_pagerank corpus damping_factor = Some (Inr (ranks, corpus'))))
         \<and> (\<forall>ranks corpus'.
               iterate_pagerank corpus damping_factor = Some (Inr (ranks, corpus')) \<longrightarrow>
               dict_keys corpus' = dict_keys corpus
               \<and> list_all (\<lambda>(q, ls). map_of corpus' q
                                       = Some (if ls = [] then dict_keys corpus else ls)) corpus)"
proof (intro conjI impI allI)
  assume "corpus \<noteq> [] \<and> \<bar>damping_factor\<bar> < 1"
  then have "corpus \<noteq> []" and "\<bar>damping_factor\<bar> < 1" by simp_all
  from iterate_pagerank_returns [OF assms this]
  show "\<exists>ranks corpus'. iterate_pagerank corpus damping_factor = Some (Inr (ranks, corpus'))"
    by blast
next
  fix ranks corpus'
  assume ret: "iterate_pagerank corpus damping_factor = Some (Inr (ranks, corpus'))"
  from iterate_pagerank_corpus_when_returned [OF ret assms]
  show "dict_keys corpus' = dict_keys corpus" 
    and "list_all (\<lambda>(q, ls). map_of corpus' q
                                = Some (if ls = [] then dict_keys corpus else ls)) corpus"
    by simp_all
qed

theorem iterate_pagerank_normalizes_corpus_witness:
  "distinct (dict_keys [(''A'', [''B'']), (''B'', [])])
   \<and> [(''A'', [''B'']), (''B'', [])] \<noteq> []
   \<and> \<bar>85 / 100 :: real\<bar> < 1
   \<and> (\<exists>ranks corpus'.
         iterate_pagerank [(''A'', [''B'']), (''B'', [])] (85 / 100) = Some (Inr (ranks, corpus'))
         \<and> dict_keys corpus' = [''A'', ''B'']
         \<and> map_of corpus' ''A'' = Some [''B'']
         \<and> map_of corpus' ''B'' = Some [''A'', ''B''])"
proof -
  let ?c = "[(''A'', [''B'']), (''B'', [])] :: string corpus"
  have d: "distinct (dict_keys ?c)" by (simp add: dict_keys_def)
  have n: "?c \<noteq> []" by simp
  have a: "\<bar>85 / 100 :: real\<bar> < 1" by simp
  note t = iterate_pagerank_normalizes_corpus [OF d, of "85 / 100"]
  from t n a obtain ranks corpus' where
    ret: "iterate_pagerank ?c (85 / 100) = Some (Inr (ranks, corpus'))"
    by blast
  with t have "dict_keys corpus' = dict_keys ?c"
    and "list_all (\<lambda>(q, ls). map_of corpus' q = Some (if ls = [] then dict_keys ?c else ls)) ?c"
    by blast+
  then have "dict_keys corpus' = [''A'', ''B'']"
    and "map_of corpus' ''A'' = Some [''B'']"
    and "map_of corpus' ''B'' = Some [''A'', ''B'']"
    by (simp_all add: dict_keys_def)
  with ret d n a show ?thesis by blast
qed

section \<open>Counting the samples\<close>

lemma sum_dict_set_new:
  "\<not> dict_contains pr k \<Longrightarrow>
   sum_list (map snd (dict_set pr k v)) = sum_list (map snd pr) + (v :: int)"
  by (induction pr) (auto simp: dict_set_def dict_contains_def split: if_splits)

lemma sum_dict_set_present:
  "dict_get pr k = Inr c \<Longrightarrow>
   sum_list (map snd (dict_set pr k v)) = sum_list (map snd pr) - c + (v :: int)"
  by (induction pr) (auto simp: dict_set_def dict_get_def split: if_splits option.splits)

lemma dict_get_dict_set: "dict_get (dict_set pr k v) k = Inr v"
  by (simp add: dict_get_def map_of_dict_set)

lemma dict_get_contains: "dict_contains pr k \<Longrightarrow> \<exists>c. dict_get pr k = Inr c"
  by (auto simp: dict_contains_def dict_get_def)

lemma count_step:
  fixes pr :: "('k, int) dict"
  assumes "dict_get (if \<not> dict_contains pr s then dict_set pr s 0 else pr) s = Inr c"
  shows "sum_list (map snd (dict_set (if \<not> dict_contains pr s then dict_set pr s 0 else pr)
                              s (c + 1)))
           = sum_list (map snd pr) + 1"
proof (cases "dict_contains pr s")
  case True
  then show ?thesis using assms sum_dict_set_present [of pr s c "c + 1"] by simp
next
  case False
  then have "c = 0" using assms by (simp add: dict_get_dict_set)
  then show ?thesis
    using False sum_dict_set_present [OF dict_get_dict_set, of pr s 0 1]
      sum_dict_set_new [OF False, of 0]
    by simp
qed

lemma sample_loop_sum:
  "sample_loop corpus d n page pr g = Inr (pr', g') \<Longrightarrow>
   sum_list (map snd pr') = sum_list (map snd pr) + max n 0"
proof (induction corpus d n page pr g rule: sample_loop.induct)
  case (1 corpus d n page pr g)
  show ?case
  proof (cases "n > 0")
    case False
    then show ?thesis using "1.prems" by (simp add: sample_loop.simps)
  next
    case True
    from "1.prems" True obtain chain g1 where
      tm: "transition_model corpus page d g = Inr (chain, g1)"
      by (subst (asm) sample_loop.simps) (auto split: sum.splits)
    from "1.prems" True tm obtain s g2 where
      rc: "random_choices (map fst chain) (map snd chain) g1 = Inr (s, g2)"
      by (subst (asm) sample_loop.simps) (auto split: sum.splits)
    define pr1 where "pr1 = (if \<not> dict_contains pr s then dict_set pr s 0 else pr)"
    from "1.prems" True tm rc obtain c where
      dg: "dict_get pr1 s = Inr c"
      by (subst (asm) sample_loop.simps) (auto simp: pr1_def Let_def split: sum.splits)
    have rec: "sample_loop corpus d (n - 1) s (dict_set pr1 s (c + 1)) g2 = Inr (pr', g')"
      using "1.prems" True tm rc dg
      by (subst (asm) sample_loop.simps) (simp add: pr1_def Let_def)
    have "sum_list (map snd pr') = sum_list (map snd (dict_set pr1 s (c + 1))) + max (n - 1) 0"
      using "1.IH" [OF True tm refl rc refl pr1_def dg rec] .
    moreover have "sum_list (map snd (dict_set pr1 s (c + 1))) = sum_list (map snd pr) + 1"
      using count_step [of pr s c] dg by (simp add: pr1_def)
    ultimately show ?thesis using True by simp
  qed
qed

lemma length_accumulate: "length (accumulate s ws) = length ws"
  by (induction ws arbitrary: s) auto

lemma last_accumulate_Cons: "last (accumulate s (w # ws)) = s + w + sum_list ws"
  by (induction ws arbitrary: s w) (simp_all add: add.assoc)

lemma last_accumulate: "ws \<noteq> [] \<Longrightarrow> last (accumulate s ws) = s + sum_list ws"
  using last_accumulate_Cons [of s "hd ws" "tl ws"] by (cases ws) (simp_all add: add.assoc)

lemma random_choices_returns:
  assumes "population \<noteq> []" and "length weights = length population"
    and "0 < sum_list weights"
  shows "\<exists>x g'. random_choices population weights g = Inr (x, g')"
proof -
  have "weights \<noteq> []" using assms(1,2) by auto
  then have "last (accumulate 0 weights) = sum_list weights"
    and "accumulate 0 weights \<noteq> []"
    using last_accumulate [of weights 0] length_accumulate [of 0 weights] by auto
  then show ?thesis
    using assms by (simp add: random_choices_def Let_def length_accumulate rng_next_def)
qed

lemma set_dict_set_subset: "set (dict_set d k v) \<subseteq> insert (k, v) (set d)"
  by (induction d) (auto simp: dict_set_def)

lemma values_foldl_dict_set:
  "snd ` set (foldl (\<lambda>d sp. dict_set d sp v) d0 sel) \<subseteq> insert v (snd ` set d0)"
proof (induction sel arbitrary: d0)
  case Nil
  then show ?case by auto
next
  case (Cons a sel)
  have "snd ` set (dict_set d0 a v) \<subseteq> insert v (snd ` set d0)"
    using set_dict_set_subset [of d0 a v] by force
  then have step: "insert v (snd ` set (dict_set d0 a v)) \<subseteq> insert v (snd ` set d0)"
    by blast
  have "snd ` set (foldl (\<lambda>d sp. dict_set d sp v) (dict_set d0 a v) sel)
          \<subseteq> insert v (snd ` set (dict_set d0 a v))"
    by (rule Cons.IH)
  from this step show ?case unfolding foldl_Cons by (rule order_trans)
qed

lemma sum_list_pos_real:
  fixes xs :: "real list"
  shows "\<forall>x\<in>set xs. 0 \<le> x \<Longrightarrow> y \<in> set xs \<Longrightarrow> 0 < y \<Longrightarrow> 0 < sum_list xs"
proof (induction xs)
  case Nil
  then show ?case by simp
next
  case (Cons x xs)
  have nn: "0 \<le> sum_list xs" using Cons.prems(1) by (intro sum_list_nonneg) simp
  show ?case
  proof (cases "y = x")
    case True
    then show ?thesis using Cons.prems(3) nn by simp
  next
    case False
    then have "0 < sum_list xs" using Cons by simp
    moreover have "0 \<le> x" using Cons.prems(1) by simp
    ultimately show ?thesis by simp
  qed
qed

lemma chain_sum_pos:
  fixes t v :: real
  assumes "sel \<noteq> []" and "0 \<le> t" and "0 < v"
  shows "0 < sum_list (map snd (foldl (\<lambda>d sp. dict_set d sp v) [(page, t)] sel))"
proof -
  let ?chain = "foldl (\<lambda>d sp. dict_set d sp v) [(page, t)] sel"
  have sub: "snd ` set ?chain \<subseteq> {v, t}"
    using values_foldl_dict_set [of v "[(page, t)]" sel] by simp
  have nn: "\<forall>x\<in>set (map snd ?chain). 0 \<le> x"
  proof
    fix x assume "x \<in> set (map snd ?chain)"
    then have "x \<in> {v, t}" using sub by (simp only: set_map) blast
    then show "0 \<le> x" using assms(2,3) by auto
  qed
  have "map_of ?chain (hd sel) = Some v"
    using assms(1) map_of_foldl_dict_set [of "\<lambda>_. v" "[(page, t)]" sel "hd sel"] by simp
  then have "(hd sel, v) \<in> set ?chain" by (rule map_of_SomeD)
  then have "v \<in> set (map snd ?chain)" by force
  from sum_list_pos_real [OF nn this assms(3)] show ?thesis .
qed

lemma foldl_dict_set_nonempty: "d0 \<noteq> [] \<Longrightarrow> foldl (\<lambda>d sp. dict_set d sp v) d0 sel \<noteq> []"
proof (induction sel arbitrary: d0)
  case Nil
  then show ?case by simp
next
  case (Cons a sel)
  have "dict_set d0 a v \<noteq> []" using Cons.prems by (cases d0) (auto simp: dict_set_def)
  then show ?case using Cons.IH by simp
qed

lemma transition_model_returns:
  assumes "corpus \<noteq> []" and "0 \<le> d" and "d \<le> 1"
  shows "\<exists>chain g'. transition_model corpus page d g = Inr (chain, g')
           \<and> chain \<noteq> [] \<and> 0 < sum_list (map snd chain)"
proof -
  define allPages where "allPages = getAllPages corpus"
  define linked where "linked = (case map_of corpus page of
                           Some ls \<Rightarrow> if length ls > 0 then ls else allPages
                         | None \<Rightarrow> allPages)"
  define sel where "sel = (if g 0 < d then linked else allPages)"
  have an: "allPages \<noteq> []" using assms(1) by (simp add: allPages_def getAllPages_nonempty)
  then have ln: "linked \<noteq> []" by (auto simp: linked_def split: option.splits)
  then have sn: "sel \<noteq> []" using an by (simp add: sel_def)
  define v where "v = d / real (length sel) + (1 - d) / real (length sel + 1)"
  define t where "t = (1 - d) / real (length sel + 1)"
  have t0: "0 \<le> t" using assms(3) by (simp add: t_def)
  have lp: "0 < real (length sel)" using sn by simp
  have "0 < v"
  proof (cases "d = 0")
    case True
    then show ?thesis by (simp add: v_def)
  next
    case False
    then have "0 < d / real (length sel)" using assms(2) lp by simp
    moreover have "0 \<le> (1 - d) / real (length sel + 1)" using assms(3) by simp
    ultimately show ?thesis unfolding v_def by linarith
  qed
  have tm: "transition_model corpus page d g =
              Inr (foldl (\<lambda>d sp. dict_set d sp v) [(page, t)] sel, \<lambda>i. g (Suc i))"
  proof (cases "g 0 < d")
    case True
    then have "sel = linked" by (simp add: sel_def)
    then show ?thesis
      using True ln
      by (simp add: transition_model_def random_choices_two Let_def dict_set_Nil
          getAllPages_def [symmetric] allPages_def [symmetric] linked_def [symmetric]
          v_def t_def)
  next
    case False
    then have "sel = allPages" by (simp add: sel_def)
    then show ?thesis
      using False an
      by (simp add: transition_model_def random_choices_two Let_def dict_set_Nil
          getAllPages_def [symmetric] allPages_def [symmetric] linked_def [symmetric]
          v_def t_def)
  qed
  show ?thesis
    using tm chain_sum_pos [OF sn t0 \<open>0 < v\<close>, of page]
      foldl_dict_set_nonempty [of "[(page, t)]" v sel]
    by simp
qed

lemma sample_loop_returns:
  assumes "corpus \<noteq> []" and "0 \<le> d" and "d \<le> 1"
  shows "\<exists>r. sample_loop corpus d n page pr g = Inr r"
  using assms
proof (induction corpus d n page pr g rule: sample_loop.induct)
  case (1 corpus d n page pr g)
  show ?case
  proof (cases "n > 0")
    case False
    then show ?thesis by (simp add: sample_loop.simps)
  next
    case True
    from transition_model_returns [OF "1.prems", of page g] obtain chain g1 where
      tm: "transition_model corpus page d g = Inr (chain, g1)"
      and cn: "chain \<noteq> []" and sp: "0 < sum_list (map snd chain)"
      by blast
    from random_choices_returns [of "map fst chain" "map snd chain" g1] cn sp
    obtain s g2 where
      rc: "random_choices (map fst chain) (map snd chain) g1 = Inr (s, g2)"
      by auto
    define pr1 where "pr1 = (if \<not> dict_contains pr s then dict_set pr s 0 else pr)"
    obtain c where dg: "dict_get pr1 s = Inr c"
      using dict_get_contains [of pr s] dict_get_dict_set [of pr s 0]
      by (cases "dict_contains pr s") (auto simp: pr1_def)
    have "sample_loop corpus d n page pr g
            = sample_loop corpus d (n - 1) s (dict_set pr1 s (c + 1)) g2"
      using True dg
      by (subst sample_loop.simps) (simp add: tm rc pr1_def Let_def)
    then show ?thesis
      using "1.IH" [OF True tm refl rc refl pr1_def dg "1.prems"] by simp
  qed
qed

lemma sum_scaled_counts:
  "sum_list (map snd (map (\<lambda>(page, rank). (page, real_of_int rank / x)) pr))
     = real_of_int (sum_list (map snd pr)) / x"
  by (induction pr) (auto simp: add_divide_distrib)

text \<open>
  C8: for every graph, every damping factor and every positive sample count n, a
  mapping returned by the sampling estimator consists of visit counts divided by n
  (each value is an integer multiple of 1/n), the counts sum to n, and the values
  sum to 1 exactly.  The estimator does return a mapping whenever the graph has a
  page and the damping factor lies between 0 and 1.
\<close>

theorem sample_pagerank_visit_counts:
  assumes "0 < n"
  shows "(\<forall>m. sample_pagerank corpus damping_factor n g = Inr m \<longrightarrow>
            (\<exists>counts. m = map (\<lambda>(page, c). (page, real_of_int c * (1 / real_of_int n))) counts
                       \<and> sum_list (map snd counts) = n)
            \<and> sum_list (map snd m) = 1)
         \<and> (corpus \<noteq> [] \<and> 0 \<le> damping_factor \<and> damping_factor \<le> 1 \<longrightarrow>
              (\<exists>m. sample_pagerank corpus damping_factor n g = Inr m))"
proof (intro conjI allI impI)
  fix m
  assume ret: "sample_pagerank corpus damping_factor n g = Inr m"
  then obtain page g1 where rc: "random_choice (dict_keys corpus) g = Inr (page, g1)"
    by (auto simp: sample_pagerank_def Let_def split: sum.splits)
  from ret rc obtain pr g2 where
    sl: "sample_loop corpus damping_factor n page [] g1 = Inr (pr, g2)"
    by (auto simp: sample_pagerank_def Let_def split: sum.splits)
  have total: "sum_list (map snd pr) = n"
    using sample_loop_sum [OF sl] assms by simp
  then have "pr \<noteq> []" using assms by auto
  then have m: "m = map (\<lambda>(page, rank). (page, real_of_int rank / real_of_int n)) pr"
    using ret rc sl assms by (simp add: sample_pagerank_def Let_def)
  have "m = map (\<lambda>(page, c). (page, real_of_int c * (1 / real_of_int n))) pr"
    by (simp add: m)
  then show "\<exists>counts. m = map (\<lambda>(page, c). (page, real_of_int c * (1 / real_of_int n))) counts
                       \<and> sum_list (map snd counts) = n"
    using total by blast
  show "sum_list (map snd m) = 1"
    unfolding m sum_scaled_counts total using assms by simp
next
  assume "corpus \<noteq> [] \<and> 0 \<le> damping_factor \<and> damping_factor \<le> 1"
  then have c: "corpus \<noteq> []" and d: "0 \<le> damping_factor" "damping_factor \<le> 1" by auto
  have "dict_keys corpus \<noteq> []" using c by (simp add: dict_keys_def)
  then obtain page g1 where rc: "random_choice (dict_keys corpus) g = Inr (page, g1)"
    by (auto simp: random_choice_def rng_next_def)
  from sample_loop_returns [OF c d, of n page "[]" g1] obtain pr g2 where
    sl: "sample_loop corpus damping_factor n page [] g1 = Inr (pr, g2)"
    by auto
  show "\<exists>m. sample_pagerank corpus damping_factor n g = Inr m"
    using rc sl assms by (simp add: sample_pagerank_def Let_def)
qed

lemma sample_two_pages:
  "sample_pagerank [(''A'', [''B'']), (''B'', [''A''])] (1 / 2) 2 (\<lambda>_. 1 / 2)
     = Inr [(''A'', 1 / 2), (''B'', 1 / 2)]"
  by (simp add: sample_pagerank_def random_choice_def rng_next_def dict_keys_def
      sample_loop.simps transition_model_def random_choices_two set_add_def dict_set_def
      dict_contains_def dict_get_def Let_def)

theorem sample_pagerank_visit_counts_witness:
  "(0 :: int) < 2
   \<and> sample_pagerank [(''A'', [''B'']), (''B'', [''A''])] (1 / 2) 2 (\<lambda>_. 1 / 2)
       = Inr [(''A'', 1 / 2), (''B'', 1 / 2)]
   \<and> (\<exists>counts. [(''A'', 1 / 2), (''B'', 1 / 2)]
                   = map (\<lambda>(page, c). (page, real_of_int c * (1 / real_of_int 2))) counts
                 \<and> sum_list (map snd counts) = 2)
   \<and> sum_list (map snd [(''A'', 1 / 2), (''B'', 1 / 2 :: real)]) = 1"
proof -
  have n: "(0 :: int) < 2" by simp
  show ?thesis
    using sample_pagerank_visit_counts [OF n, of "[(''A'', [''B'']), (''B'', [''A''])]"
        "1 / 2" "\<lambda>_. 1 / 2"] sample_two_pages
    by simp
qed

end
